theory Spec2Isabelle
  imports Main
begin

section \<open>Time, contexts and errors\<close>

text \<open>
  The scheduler of \<^verbatim>\<open>lesson-01/advanced/Task.go\<close> is written against Go's
  \<^verbatim>\<open>time\<close> and \<^verbatim>\<open>context\<close> packages. A \<^verbatim>\<open>time.Duration\<close> is a count of
  nanoseconds; instants are nanoseconds on one clock shared by all goroutines. The clock is
  explicit state: \<^verbatim>\<open>time.Sleep d\<close> moves the sleeping goroutine's instant forward by
  \<^verbatim>\<open>d\<close>, and nothing else inside a task takes time.
\<close>

type_synonym time = int

definition Millisecond :: time where
  "Millisecond = 1000000"

definition Second :: time where
  "Second = 1000 * Millisecond"

text \<open>
  The only contexts the program builds are \<^verbatim>\<open>context.Background()\<close> and chains of
  \<^verbatim>\<open>context.WithTimeout\<close> over it, and every \<^verbatim>\<open>cancel\<close> is deferred to the end of the
  function that created the context. Such a context is its deadline: none for the
  background context, otherwise the earliest deadline on the chain. Its \<^verbatim>\<open>Done\<close>
  channel is readable from the deadline on, and \<^verbatim>\<open>Err\<close> is then
  \<^verbatim>\<open>context.DeadlineExceeded\<close>.
\<close>

type_synonym Context = "time option"

datatype ctx_error = DeadlineExceeded | Canceled

definition Background :: Context where
  "Background = None"

definition WithTimeout :: "Context \<Rightarrow> time \<Rightarrow> time \<Rightarrow> Context" where
  "WithTimeout parent now d =
     (case parent of
        None \<Rightarrow> Some (now + d)
      | Some p \<Rightarrow> Some (min p (now + d)))"

definition Done :: "Context \<Rightarrow> time \<Rightarrow> bool" where
  "Done c now = (case c of None \<Rightarrow> False | Some d \<Rightarrow> d \<le> now)"

definition Err :: "Context \<Rightarrow> time \<Rightarrow> ctx_error option" where
  "Err c now = (if Done c now then Some DeadlineExceeded else None)"

text \<open>
  The three shapes of non-nil \<^verbatim>\<open>error\<close> that the tasks return. The first two are the
  \<^verbatim>\<open>fmt.Errorf\<close> values of \<^verbatim>\<open>SimpleTask.Execute\<close> (task id, "timed out", wrapped
  context error) and of \<^verbatim>\<open>LongRunningTask.Execute\<close> (task id, "cancelled at step i",
  wrapped context error); the third is a context error handed through unwrapped. A Go
  \<^verbatim>\<open>error\<close> is an \<open>error option\<close>, \<open>None\<close> being \<^verbatim>\<open>nil\<close>.
\<close>

datatype error =
    ErrTimeout string "ctx_error option"
  | ErrCancelled string int "ctx_error option"
  | ErrContext ctx_error

section \<open>Tasks\<close>

record SimpleTask =
  ID :: string
  Timeout :: time

record LongRunningTask =
  LID :: string
  Count :: int
  LTimeout :: time

definition NewSimpleTask :: "string \<Rightarrow> time \<Rightarrow> SimpleTask" where
  "NewSimpleTask tid timeout = \<lparr>ID = tid, Timeout = timeout\<rparr>"

definition NewLongRunningTask :: "string \<Rightarrow> int \<Rightarrow> time \<Rightarrow> LongRunningTask" where
  "NewLongRunningTask tid count timeout = \<lparr>LID = tid, Count = count, LTimeout = timeout\<rparr>"

text \<open>
  What the run-time decides and the program does not: the value of \<^verbatim>\<open>rand.Intn(100)\<close>
  (taken modulo 100) and, when both cases of the \<^verbatim>\<open>select\<close> that ends
  \<^verbatim>\<open>SimpleTask.Execute\<close> are ready at the same instant, which case Go picks.
\<close>

record choices =
  rnd :: nat
  pick_done :: bool

subsection \<open>SimpleTask.Execute\<close>

text \<open>
  The local \<^verbatim>\<open>duration\<close> of the inner goroutine:
  \<^verbatim>\<open>time.Duration(rand.Intn(100)+300) * time.Millisecond\<close>.
\<close>

definition duration :: "choices \<Rightarrow> time" where
  "duration ch = (int (rnd ch mod 100) + 300) * Millisecond"

text \<open>
  The value the inner goroutine sends on \<^verbatim>\<open>done\<close> when it wakes at instant \<open>wake\<close>:
  the context's error if the context is done by then, \<^verbatim>\<open>nil\<close> otherwise.
\<close>

definition goroutine_send :: "Context \<Rightarrow> time \<Rightarrow> error option" where
  "goroutine_send taskCtx wake =
     (if Done taskCtx wake then map_option ErrContext (Err taskCtx wake) else None)"

text \<open>
  \<^verbatim>\<open>Execute\<close> called at instant \<open>start\<close> returns a pair: the error and the instant of
  return. The final \<^verbatim>\<open>select\<close> blocks until \<^verbatim>\<open>taskCtx.Done()\<close> is readable (from the
  deadline on) or \<^verbatim>\<open>done\<close> holds a value (from \<open>wake\<close> on), and takes whichever comes
  first.
\<close>

definition SimpleTask_Execute ::
  "SimpleTask \<Rightarrow> Context \<Rightarrow> time \<Rightarrow> choices \<Rightarrow> error option \<times> time" where
  "SimpleTask_Execute t ctx start ch =
     (let taskCtx = WithTimeout ctx start (Timeout t);
          wake = start + duration ch
      in case taskCtx of
           None \<Rightarrow> (goroutine_send taskCtx wake, wake)
         | Some d \<Rightarrow>
             if d < wake then (Some (ErrTimeout (ID t) (Err taskCtx (max start d))), max start d)
             else if wake < d then (goroutine_send taskCtx wake, wake)
             else if pick_done ch then (Some (ErrTimeout (ID t) (Err taskCtx wake)), wake)
             else (goroutine_send taskCtx wake, wake))"

subsection \<open>LongRunningTask.Execute\<close>

text \<open>
  The loop \<^verbatim>\<open>for i := 0; i < t.Count; i++\<close>, entered at counter \<open>i\<close> and instant
  \<open>now\<close>: the \<^verbatim>\<open>select\<close> with a \<^verbatim>\<open>default\<close> case polls the context without blocking,
  and the default branch sleeps 100 ms.
\<close>

function steps :: "LongRunningTask \<Rightarrow> Context \<Rightarrow> int \<Rightarrow> time \<Rightarrow> error option \<times> time" where
  "steps t taskCtx i now =
     (if i < Count t then
        (if Done taskCtx now then (Some (ErrCancelled (LID t) i (Err taskCtx now)), now)
         else steps t taskCtx (i + 1) (now + 100 * Millisecond))
      else (None, now))"
  by pat_completeness auto
termination
  by (relation "measure (\<lambda>(t, c, i, now). nat (Count t - i))") auto

declare steps.simps [simp del]

definition LongRunningTask_Execute ::
  "LongRunningTask \<Rightarrow> Context \<Rightarrow> time \<Rightarrow> error option \<times> time" where
  "LongRunningTask_Execute t ctx start =
     steps t (WithTimeout ctx start (LTimeout t)) 0 start"

subsection \<open>The Task interface\<close>

datatype task = Simple SimpleTask | LongRunning LongRunningTask

fun GetID :: "task \<Rightarrow> string" where
  "GetID (Simple t) = ID t"
| "GetID (LongRunning t) = LID t"

fun Execute :: "task \<Rightarrow> Context \<Rightarrow> time \<Rightarrow> choices \<Rightarrow> error option \<times> time" where
  "Execute (Simple t) ctx start ch = SimpleTask_Execute t ctx start ch"
| "Execute (LongRunning t) ctx start ch = LongRunningTask_Execute t ctx start"

section \<open>The scheduler\<close>

text \<open>
  \<^verbatim>\<open>TaskScheduler\<close>: the fields \<^verbatim>\<open>tasks\<close>, \<^verbatim>\<open>wg\<close> (the counter of the
  \<^verbatim>\<open>sync.WaitGroup\<close>), \<^verbatim>\<open>results\<close>, \<^verbatim>\<open>timeout\<close> and \<^verbatim>\<open>workerCount\<close>. The
  mutex \<^verbatim>\<open>mu\<close> has no field of its own: a section it guards is one atomic step.
  \<^verbatim>\<open>NewTaskScheduler\<close> returns a scheduler and nothing else, for every \<^verbatim>\<open>int\<close>.
\<close>

record TaskScheduler =
  tasks :: "task list"
  wg :: int
  results :: "string \<rightharpoonup> error option"
  timeout :: time
  workerCount :: int

definition NewTaskScheduler :: "int \<Rightarrow> time \<Rightarrow> TaskScheduler" where
  "NewTaskScheduler wc tmo =
     \<lparr>tasks = [], wg = 0, results = Map.empty, timeout = tmo, workerCount = wc\<rparr>"

definition AddTask :: "TaskScheduler \<Rightarrow> task \<Rightarrow> TaskScheduler" where
  "AddTask s tk = s\<lparr>tasks := tasks s @ [tk]\<rparr>"

subsection \<open>The goroutines of Run\<close>

text \<open>
  \<^verbatim>\<open>Run\<close> is concurrent, so it is a transition system. The main goroutine is either in
  the loop that starts workers (about to test \<^verbatim>\<open>i < s.workerCount\<close>), blocked in
  \<^verbatim>\<open>s.wg.Wait()\<close>, or has returned \<^verbatim>\<open>s.results\<close>. A worker is at the head of
  \<^verbatim>\<open>for task := range taskChan\<close>, inside \<^verbatim>\<open>task.Execute(ctx)\<close> (which will return
  the given error at the given instant), between the return of \<^verbatim>\<open>Execute\<close> and
  \<^verbatim>\<open>s.mu.Lock()\<close>, or gone (its deferred \<^verbatim>\<open>s.wg.Done()\<close> has run). The number in
  \<open>WExec\<close> and \<open>WRecord\<close> is the position of the task in \<^verbatim>\<open>s.tasks\<close>.
\<close>

datatype main_pc = MSpawn int | MWait | MReturned

datatype worker_pc =
    WIdle
  | WExec nat task "error option" time
  | WRecord nat task "error option"
  | WExited

text \<open>
  The state of a run. \<open>taskChan\<close> is the closed, buffered channel: the tasks not yet
  received, each with its position in \<^verbatim>\<open>s.tasks\<close>. \<open>ctx\<close> is the context of the run
  and \<open>now\<close> the clock. The last three fields are history, written and never read by the
  program: who received which task when, which tasks had \<^verbatim>\<open>Execute\<close> called, and the
  writes to \<^verbatim>\<open>s.results\<close> in the order they were made.
\<close>

record run_state =
  sched :: TaskScheduler
  taskChan :: "(nat \<times> task) list"
  ctx :: Context
  now :: time
  main :: main_pc
  workers :: "worker_pc list"
  claimed :: "(nat \<times> nat \<times> time) list"
  started :: "nat list"
  recorded :: "(nat \<times> string \<times> error option) list"

text \<open>
  \<^verbatim>\<open>Run\<close> up to the worker loop, called at instant \<open>t0\<close>: the channel is made with
  room for every task, filled in the order of \<^verbatim>\<open>s.tasks\<close> and closed, and the context
  gets the deadline \<open>t0 + timeout\<close>. Nothing looks at whether \<^verbatim>\<open>Run\<close> was called before.
\<close>

definition Run_init :: "TaskScheduler \<Rightarrow> time \<Rightarrow> run_state" where
  "Run_init s t0 =
     \<lparr>sched = s, taskChan = enumerate 0 (tasks s),
      ctx = WithTimeout Background t0 (timeout s), now = t0,
      main = MSpawn 0, workers = [], claimed = [], started = [], recorded = []\<rparr>"

text \<open>
  One step of the main goroutine. In the loop, \<^verbatim>\<open>s.wg.Add(1)\<close> and
  \<^verbatim>\<open>go s.worker(ctx, i, taskChan)\<close> add a worker at the loop head; \<^verbatim>\<open>s.wg.Wait()\<close>
  can be passed only when the counter is zero.
\<close>

definition main_step :: "run_state \<Rightarrow> run_state option" where
  "main_step s =
     (case main s of
        MSpawn i \<Rightarrow>
          if i < workerCount (sched s)
          then Some (s\<lparr>sched := (sched s)\<lparr>wg := wg (sched s) + 1\<rparr>,
                       workers := workers s @ [WIdle],
                       main := MSpawn (i + 1)\<rparr>)
          else Some (s\<lparr>main := MWait\<rparr>)
      | MWait \<Rightarrow> if wg (sched s) = 0 then Some (s\<lparr>main := MReturned\<rparr>) else None
      | MReturned \<Rightarrow> None)"

text \<open>
  One step of worker \<open>w\<close>.
  \<^item> At the loop head it receives from the channel. If the channel is empty (and closed)
    the loop ends and the worker is gone. Otherwise it holds a task, and the
    \<^verbatim>\<open>select\<close> with a \<^verbatim>\<open>default\<close> case polls \<^verbatim>\<open>ctx.Done()\<close>: if the context is done
    the worker returns, and the task it holds is dropped; if not, it calls
    \<^verbatim>\<open>task.Execute(ctx)\<close>.
    The receive and the poll are one step: both are non-blocking and no instant of the
    clock lies between them.
  \<^item> \<^verbatim>\<open>Execute\<close> returns no earlier than the instant it computed.
  \<^item> The locked section \<^verbatim>\<open>s.results[task.GetID()] = err\<close> is one step, after which the
    worker is back at the loop head.
\<close>

definition worker_exit :: "nat \<Rightarrow> run_state \<Rightarrow> run_state" where
  "worker_exit w s =
     s\<lparr>sched := (sched s)\<lparr>wg := wg (sched s) - 1\<rparr>,
       workers := (workers s)[w := WExited]\<rparr>"

definition worker_step :: "nat \<Rightarrow> choices \<Rightarrow> run_state \<Rightarrow> run_state option" where
  "worker_step w ch s =
     (if w < length (workers s) then
        (case workers s ! w of
           WIdle \<Rightarrow>
             (case taskChan s of
                [] \<Rightarrow> Some (worker_exit w s)
              | (i, tk) # q \<Rightarrow>
                  if Done (ctx s) (now s)
                  then Some (worker_exit w
                               (s\<lparr>taskChan := q,
                                  claimed := claimed s @ [(w, i, now s)]\<rparr>))
                  else (case Execute tk (ctx s) (now s) ch of
                          (err, fin) \<Rightarrow>
                            Some (s\<lparr>taskChan := q,
                                    workers := (workers s)[w := WExec i tk err fin],
                                    claimed := claimed s @ [(w, i, now s)],
                                    started := started s @ [i]\<rparr>)))
         | WExec i tk err fin \<Rightarrow>
             if fin \<le> now s
             then Some (s\<lparr>workers := (workers s)[w := WRecord i tk err]\<rparr>)
             else None
         | WRecord i tk err \<Rightarrow>
             Some (s\<lparr>sched := (sched s)\<lparr>results := (results (sched s))(GetID tk \<mapsto> err)\<rparr>,
                     workers := (workers s)[w := WIdle],
                     recorded := recorded s @ [(i, GetID tk, err)]\<rparr>)
         | WExited \<Rightarrow> None)
      else None)"

text \<open>
  A schedule is a list of events: the clock moves forward, the main goroutine takes a step,
  or a worker takes a step (with the run-time's choices for that step). An event that is
  not possible in the state (a blocked or finished goroutine, a worker that does not
  exist) has no successor. Goroutines may be delayed for any time between their steps.
\<close>

datatype event = Tick nat | MainStep | WorkerStep nat choices

fun step :: "event \<Rightarrow> run_state \<Rightarrow> run_state option" where
  "step (Tick d) s = Some (s\<lparr>now := now s + int d\<rparr>)"
| "step MainStep s = main_step s"
| "step (WorkerStep w ch) s = worker_step w ch s"

fun exec :: "event list \<Rightarrow> run_state \<Rightarrow> run_state option" where
  "exec [] s = Some s"
| "exec (e # es) s = (case step e s of None \<Rightarrow> None | Some s' \<Rightarrow> exec es s')"

text \<open>
  \<^verbatim>\<open>Run\<close> as a whole: under a schedule that brings the main goroutine to its
  \<^verbatim>\<open>return\<close>, the value returned (the map \<^verbatim>\<open>s.results\<close>) with the scheduler and the
  clock as the call leaves them.
\<close>

definition Run ::
  "TaskScheduler \<Rightarrow> time \<Rightarrow> event list \<Rightarrow>
     ((string \<rightharpoonup> error option) \<times> TaskScheduler \<times> time) option" where
  "Run s t0 evs =
     (case exec evs (Run_init s t0) of
        None \<Rightarrow> None
      | Some s' \<Rightarrow>
          if main s' = MReturned then Some (results (sched s'), sched s', now s') else None)"

section \<open>History and invariants of a run\<close>

text \<open>
  The entries of \<open>claimed\<close> are (worker, position of the task, instant of the receive).
\<close>

fun claim_idx :: "nat \<times> nat \<times> time \<Rightarrow> nat" where
  "claim_idx (w, i, t) = i"

fun claim_time :: "nat \<times> nat \<times> time \<Rightarrow> time" where
  "claim_time (w, i, t) = t"

text \<open>The entries of \<open>recorded\<close> are (position of the task, key written, error written).\<close>

definition rec_idx :: "nat \<times> string \<times> error option \<Rightarrow> nat" where
  "rec_idx r = fst r"


fun held :: "worker_pc \<Rightarrow> (nat \<times> task) option" where
  "held (WExec i tk err fin) = Some (i, tk)"
| "held (WRecord i tk err) = Some (i, tk)"
| "held WIdle = None"
| "held WExited = None"

fun live :: "worker_pc \<Rightarrow> bool" where
  "live WExited = False"
| "live p = True"

fun replay ::
  "(nat \<times> string \<times> error option) list \<Rightarrow> (string \<rightharpoonup> error option) \<Rightarrow>
     (string \<rightharpoonup> error option)" where
  "replay [] m = m"
| "replay ((i, k, e) # rs) m = replay rs (m(k \<mapsto> e))"

definition inv_static :: "TaskScheduler \<Rightarrow> time \<Rightarrow> run_state \<Rightarrow> bool" where
  "inv_static S t0 s \<longleftrightarrow>
     tasks (sched s) = tasks S \<and> timeout (sched s) = timeout S \<and>
     workerCount (sched s) = workerCount S \<and>
     ctx s = WithTimeout Background t0 (timeout S) \<and> t0 \<le> now s \<and>
     (\<forall>c \<in> set (claimed s). claim_time c \<le> now s)"

definition inv_queue :: "TaskScheduler \<Rightarrow> run_state \<Rightarrow> bool" where
  "inv_queue S s \<longleftrightarrow>
     map claim_idx (claimed s) = [0..<length (claimed s)] \<and>
     length (claimed s) \<le> length (tasks S) \<and>
     taskChan s = drop (length (claimed s)) (enumerate 0 (tasks S)) \<and>
     started s = map claim_idx (filter (\<lambda>c. \<not> Done (ctx s) (claim_time c)) (claimed s))"

definition inv_held :: "TaskScheduler \<Rightarrow> run_state \<Rightarrow> bool" where
  "inv_held S s \<longleftrightarrow>
     (\<forall>w i tk. w < length (workers s) \<and> held (workers s ! w) = Some (i, tk) \<longrightarrow>
        i \<in> set (started s) \<and> i < length (tasks S) \<and> tk = tasks S ! i) \<and>
     (\<forall>r \<in> set (recorded s).
        fst r \<in> set (started s) \<and> fst r < length (tasks S) \<and>
        fst (snd r) = GetID (tasks S ! fst r))"

definition inv_cover :: "run_state \<Rightarrow> bool" where
  "inv_cover s \<longleftrightarrow>
     (\<forall>i \<in> set (started s).
        i \<in> fst ` set (recorded s) \<or>
        (\<exists>w tk. w < length (workers s) \<and> held (workers s ! w) = Some (i, tk)))"

definition inv_sync :: "TaskScheduler \<Rightarrow> run_state \<Rightarrow> bool" where
  "inv_sync S s \<longleftrightarrow>
     results (sched s) = replay (recorded s) (results S) \<and>
     wg (sched s) = wg S + int (length (filter live (workers s))) \<and>
     (\<forall>i. main s = MSpawn i \<longrightarrow>
        0 \<le> i \<and> length (workers s) = nat i \<and> (i \<le> workerCount S \<or> i = 0)) \<and>
     (main s = MWait \<or> main s = MReturned \<longrightarrow> length (workers s) = nat (workerCount S)) \<and>
     (main s = MReturned \<longrightarrow> wg S = 0 \<longrightarrow> (\<forall>p \<in> set (workers s). \<not> live p))"

definition inv_all :: "TaskScheduler \<Rightarrow> time \<Rightarrow> run_state \<Rightarrow> bool" where
  "inv_all S t0 s \<longleftrightarrow>
     inv_static S t0 s \<and> inv_queue S s \<and> inv_held S s \<and> inv_cover s \<and> inv_sync S s"

text \<open>
  A bound on the steps a run can still take: four for every task in the queue, for every
  worker the steps to its next return to the loop head and one for leaving the loop, and
  for the main goroutine the steps to its \<^verbatim>\<open>return\<close>.
\<close>

fun rank :: "worker_pc \<Rightarrow> nat" where
  "rank WIdle = 1"
| "rank (WExec i tk err fin) = 3"
| "rank (WRecord i tk err) = 2"
| "rank WExited = 0"

fun main_rank :: "int \<Rightarrow> main_pc \<Rightarrow> nat" where
  "main_rank wc (MSpawn i) = 2 * nat (wc - i) + 2"
| "main_rank wc MWait = 1"
| "main_rank wc MReturned = 0"

definition remaining :: "run_state \<Rightarrow> nat" where
  "remaining s =
     4 * length (taskChan s) + sum_list (map rank (workers s)) +
     main_rank (workerCount (sched s)) (main s)"

section \<open>Concrete runs\<close>

text \<open>
  The scheduler that \<^verbatim>\<open>func main\<close> builds (three workers, four seconds, five tasks of
  which two share the identifier \<^verbatim>\<open>long-task-1\<close>), a schedule of it in which no goroutine
  is delayed, and the state that schedule ends in. \<open>c0\<close> is the run-time choice in which
  \<^verbatim>\<open>rand.Intn(100)\<close> returns 0.
\<close>

definition c0 :: choices where
  "c0 = \<lparr>rnd = 0, pick_done = False\<rparr>"

definition main_scheduler :: TaskScheduler where
  "main_scheduler =
     foldl AddTask (NewTaskScheduler 3 (4 * Second))
       [Simple (NewSimpleTask ''task-1'' (2 * Second)),
        LongRunning (NewLongRunningTask ''long-task-1'' 50 (5 * Second)),
        LongRunning (NewLongRunningTask ''long-task-1'' 40 (4 * Second)),
        LongRunning (NewLongRunningTask ''long-task-2'' 20 (1 * Second)),
        Simple (NewSimpleTask ''task-3'' (500 * Millisecond))]"

definition main_schedule :: "event list" where
  "main_schedule =
     [MainStep, MainStep, MainStep, MainStep,
      WorkerStep 0 c0, WorkerStep 1 c0, WorkerStep 2 c0,
      Tick 300000000, WorkerStep 0 c0, WorkerStep 0 c0,
      WorkerStep 0 c0, Tick 1000000000, WorkerStep 0 c0, WorkerStep 0 c0,
      WorkerStep 0 c0, Tick 300000000, WorkerStep 0 c0, WorkerStep 0 c0,
      WorkerStep 0 c0,
      Tick 2400000000, WorkerStep 1 c0, WorkerStep 2 c0,
      WorkerStep 2 c0, WorkerStep 1 c0,
      WorkerStep 1 c0, WorkerStep 2 c0, MainStep]"

definition main_final :: run_state where
  "main_final =
     \<lparr>sched = main_scheduler
        \<lparr>results := [''task-1'' \<mapsto> None,
           ''long-task-2'' \<mapsto> Some (ErrCancelled ''long-task-2'' 10 (Some DeadlineExceeded)),
           ''task-3'' \<mapsto> None,
           ''long-task-1'' \<mapsto> None,
           ''long-task-1'' \<mapsto> Some (ErrCancelled ''long-task-1'' 40 (Some DeadlineExceeded))]\<rparr>,
      taskChan = [], ctx = Some (4 * Second), now = 4000 * Millisecond,
      main = MReturned, workers = [WExited, WExited, WExited],
      claimed = [(0, 0, 0), (1, 1, 0), (2, 2, 0), (0, 3, 300 * Millisecond),
                 (0, 4, 1300 * Millisecond)],
      started = [0, 1, 2, 3, 4],
      recorded = [(0, ''task-1'', None),
                  (3, ''long-task-2'', Some (ErrCancelled ''long-task-2'' 10 (Some DeadlineExceeded))),
                  (4, ''task-3'', None),
                  (2, ''long-task-1'', None),
                  (1, ''long-task-1'', Some (ErrCancelled ''long-task-1'' 40 (Some DeadlineExceeded)))]\<rparr>"

text \<open>
  One worker, a budget of one second and two bounded tasks with distinct identifiers, run
  one after the other.
\<close>

definition two_tasks :: "task list" where
  "two_tasks = [Simple (NewSimpleTask ''a'' (500 * Millisecond)),
                Simple (NewSimpleTask ''b'' (500 * Millisecond))]"





text \<open>
  The scheduler of \<^verbatim>\<open>func main\<close> again, with a first worker that is started and then
  delayed until the global deadline.
\<close>

definition late_state :: run_state where
  "late_state =
     \<lparr>sched = main_scheduler\<lparr>wg := 1\<rparr>,
      taskChan = enumerate 0 (tasks main_scheduler),
      ctx = Some (4 * Second), now = 4000 * Millisecond,
      main = MSpawn 1, workers = [WIdle],
      claimed = [], started = [], recorded = []\<rparr>"


section \<open>Properties of the transition system\<close>

lemma exec_append:
  "exec (es @ es') s = (case exec es s of None \<Rightarrow> None | Some s' \<Rightarrow> exec es' s')"
  by (induction es arbitrary: s) (auto split: option.splits)

lemma exec_invariant:
  assumes "exec evs s = Some s'" and "P s"
    and "\<And>e a b. P a \<Longrightarrow> step e a = Some b \<Longrightarrow> P b"
  shows "P s'"
  using assms(1,2)
proof (induction evs arbitrary: s)
  case Nil
  then show ?case by simp
next
  case (Cons e es)
  from Cons.prems(1) obtain m where m: "step e s = Some m" "exec es m = Some s'"
    by (auto split: option.splits)
  from assms(3)[OF Cons.prems(2) m(1)] have "P m" .
  from Cons.IH[OF m(2) this] show ?case .
qed

lemma main_step_cases [consumes 1, case_names spawn wait return]:
  assumes "main_step s = Some s'"
  obtains
    (spawn) i where "main s = MSpawn i" "i < workerCount (sched s)"
      "s' = s\<lparr>sched := (sched s)\<lparr>wg := wg (sched s) + 1\<rparr>,
              workers := workers s @ [WIdle], main := MSpawn (i + 1)\<rparr>"
  | (wait) i where "main s = MSpawn i" "\<not> i < workerCount (sched s)" "s' = s\<lparr>main := MWait\<rparr>"
  | (return) "main s = MWait" "wg (sched s) = 0" "s' = s\<lparr>main := MReturned\<rparr>"
  using assms unfolding main_step_def
  by (auto split: main_pc.splits if_splits)

lemma worker_step_cases [consumes 1, case_names drained abandon launch finish store]:
  assumes "worker_step w ch s = Some s'"
  obtains
    (drained) "w < length (workers s)" "workers s ! w = WIdle" "taskChan s = []"
      "s' = worker_exit w s"
  | (abandon) i tk q where "w < length (workers s)" "workers s ! w = WIdle"
      "taskChan s = (i, tk) # q" "Done (ctx s) (now s)"
      "s' = worker_exit w (s\<lparr>taskChan := q, claimed := claimed s @ [(w, i, now s)]\<rparr>)"
  | (launch) i tk q err fin where "w < length (workers s)" "workers s ! w = WIdle"
      "taskChan s = (i, tk) # q" "\<not> Done (ctx s) (now s)"
      "Execute tk (ctx s) (now s) ch = (err, fin)"
      "s' = s\<lparr>taskChan := q, workers := (workers s)[w := WExec i tk err fin],
              claimed := claimed s @ [(w, i, now s)], started := started s @ [i]\<rparr>"
  | (finish) i tk err fin where "w < length (workers s)" "workers s ! w = WExec i tk err fin"
      "fin \<le> now s" "s' = s\<lparr>workers := (workers s)[w := WRecord i tk err]\<rparr>"
  | (store) i tk err where "w < length (workers s)" "workers s ! w = WRecord i tk err"
      "s' = s\<lparr>sched := (sched s)\<lparr>results := (results (sched s))(GetID tk \<mapsto> err)\<rparr>,
              workers := (workers s)[w := WIdle],
              recorded := recorded s @ [(i, GetID tk, err)]\<rparr>"
  using assms unfolding worker_step_def
  by (auto split: if_splits worker_pc.splits list.splits prod.splits)


lemma step_cases [consumes 1, case_names tick main worker]:
  assumes "step e s = Some s'"
  obtains (tick) d where "e = Tick d" "s' = s\<lparr>now := now s + int d\<rparr>"
  | (main) "e = MainStep" "main_step s = Some s'"
  | (worker) w ch where "e = WorkerStep w ch" "worker_step w ch s = Some s'"
  using assms by (cases e) auto

subsection \<open>inv_static\<close>

lemma inv_static_init: "inv_static S t0 (Run_init S t0)"
  by (simp add: inv_static_def Run_init_def)

lemma inv_static_step:
  assumes "inv_static S t0 s" "step e s = Some s'"
  shows "inv_static S t0 s'"
  using assms(2)
proof (cases rule: step_cases)
  case (tick d)
  with assms(1) show ?thesis by (fastforce simp: inv_static_def)
next
  case main
  from main(2) assms(1) show ?thesis
    by (cases rule: main_step_cases) (auto simp: inv_static_def)
next
  case (worker w ch)
  from worker(2) assms(1) show ?thesis
    by (cases rule: worker_step_cases) (auto simp: inv_static_def worker_exit_def)
qed

subsection \<open>inv_queue\<close>

lemma drop_enumerate_Cons:
  assumes "drop k (enumerate 0 xs) = (i, x) # q"
  shows "i = k \<and> k < length xs \<and> x = xs ! k \<and> q = drop (Suc k) (enumerate 0 xs)"
proof -
  have k: "k < length xs"
  proof (rule ccontr)
    assume "\<not> k < length xs"
    then have "drop k (enumerate 0 xs) = []" by simp
    with assms show False by simp
  qed
  then have "drop k (enumerate 0 xs) = enumerate 0 xs ! k # drop (Suc k) (enumerate 0 xs)"
    by (simp add: Cons_nth_drop_Suc)
  with assms k show ?thesis by (auto simp: nth_enumerate_eq)
qed

lemma inv_queue_init: "inv_queue S (Run_init S t0)"
  by (simp add: inv_queue_def Run_init_def)

lemma inv_queue_step:
  assumes "inv_queue S s" "step e s = Some s'"
  shows "inv_queue S s'"
  using assms(2)
proof (cases rule: step_cases)
  case (tick d)
  with assms(1) show ?thesis by (simp add: inv_queue_def)
next
  case main
  from main(2) assms(1) show ?thesis
    by (cases rule: main_step_cases) (auto simp: inv_queue_def)
next
  case (worker w ch)
  from worker(2) show ?thesis
  proof (cases rule: worker_step_cases)
    case drained
    with assms(1) show ?thesis by (simp add: inv_queue_def worker_exit_def)
  next
    case (abandon i tk q)
    from assms(1) abandon(3) have "drop (length (claimed s)) (enumerate 0 (tasks S)) = (i, tk) # q"
      by (simp add: inv_queue_def)
    from drop_enumerate_Cons[OF this] abandon(4,5) assms(1) show ?thesis
      by (simp add: inv_queue_def worker_exit_def)
  next
    case (launch i tk q err fin)
    from assms(1) launch(3) have "drop (length (claimed s)) (enumerate 0 (tasks S)) = (i, tk) # q"
      by (simp add: inv_queue_def)
    from drop_enumerate_Cons[OF this] launch(4,6) assms(1) show ?thesis
      by (simp add: inv_queue_def)
  next
    case (finish i tk err fin)
    with assms(1) show ?thesis by (simp add: inv_queue_def)
  next
    case (store i tk err)
    with assms(1) show ?thesis by (simp add: inv_queue_def)
  qed
qed


subsection \<open>inv_held\<close>

lemma inv_held_init: "inv_held S (Run_init S t0)"
  by (simp add: inv_held_def Run_init_def)

lemma inv_heldD:
  assumes "inv_held S s" "w < length (workers s)" "held (workers s ! w) = Some (i, tk)"
  shows "i \<in> set (started s)" "i < length (tasks S)" "tk = tasks S ! i"
  using assms unfolding inv_held_def by blast+

lemma inv_held_step:
  assumes "inv_held S s" "inv_queue S s" "step e s = Some s'"
  shows "inv_held S s'"
  using assms(3)
proof (cases rule: step_cases)
  case (tick d)
  with assms(1) show ?thesis by (simp add: inv_held_def)
next
  case main
  from main(2) show ?thesis
  proof (cases rule: main_step_cases)
    case (spawn i)
    with assms(1) show ?thesis
      by (auto simp: inv_held_def nth_append split: if_splits)
  next
    case (wait i)
    with assms(1) show ?thesis by (simp add: inv_held_def)
  next
    case return
    with assms(1) show ?thesis by (simp add: inv_held_def)
  qed
next
  case (worker w ch)
  from worker(2) show ?thesis
  proof (cases rule: worker_step_cases)
    case drained
    with assms(1) show ?thesis
      by (auto simp: inv_held_def worker_exit_def nth_list_update split: if_splits)
  next
    case (abandon i tk q)
    with assms(1) show ?thesis
      by (auto simp: inv_held_def worker_exit_def nth_list_update split: if_splits)
  next
    case (launch i tk q err fin)
    from assms(2) launch(3) have "drop (length (claimed s)) (enumerate 0 (tasks S)) = (i, tk) # q"
      by (simp add: inv_queue_def)
    from drop_enumerate_Cons[OF this] have "i < length (tasks S)" "tk = tasks S ! i"
      by simp_all
    with launch assms(1) show ?thesis
      by (auto simp: inv_held_def nth_list_update split: if_splits)
  next
    case (finish i tk err fin)
    from finish(2) have "held (workers s ! w) = Some (i, tk)" by simp
    from inv_heldD[OF assms(1) finish(1) this]
    have "i \<in> set (started s)" "i < length (tasks S)" "tk = tasks S ! i" .
    with finish assms(1) show ?thesis
      by (auto simp: inv_held_def nth_list_update split: if_splits)
  next
    case (store i tk err)
    from store(2) have "held (workers s ! w) = Some (i, tk)" by simp
    from inv_heldD[OF assms(1) store(1) this]
    have "i \<in> set (started s)" "i < length (tasks S)" "tk = tasks S ! i" .
    with store assms(1) show ?thesis
      by (auto simp: inv_held_def nth_list_update split: if_splits)
  qed
qed

subsection \<open>inv_cover\<close>

lemma inv_cover_init: "inv_cover (Run_init S t0)"
  by (simp add: inv_cover_def Run_init_def)

lemma inv_cover_update:
  assumes "inv_cover s" "w < length (workers s)"
    and "held p = held (workers s ! w)"
  shows "inv_cover (s\<lparr>workers := (workers s)[w := p]\<rparr>)"
  unfolding inv_cover_def
proof
  fix i assume "i \<in> set (started (s\<lparr>workers := (workers s)[w := p]\<rparr>))"
  then have "i \<in> set (started s)" by simp
  with assms(1) consider "i \<in> fst ` set (recorded s)"
    | v tk where "v < length (workers s)" "held (workers s ! v) = Some (i, tk)"
    unfolding inv_cover_def by blast
  then show "i \<in> fst ` set (recorded (s\<lparr>workers := (workers s)[w := p]\<rparr>)) \<or>
       (\<exists>v tk. v < length (workers (s\<lparr>workers := (workers s)[w := p]\<rparr>)) \<and>
          held (workers (s\<lparr>workers := (workers s)[w := p]\<rparr>) ! v) = Some (i, tk))"
  proof cases
    case 1
    then show ?thesis by simp
  next
    case 2
    with assms(2,3) have "v < length ((workers s)[w := p]) \<and> held ((workers s)[w := p] ! v) = Some (i, tk)"
      by (cases "v = w") (simp_all add: nth_list_update)
    then show ?thesis by auto
  qed
qed

lemma inv_cover_cong:
  assumes "inv_cover s" "started s' = started s" "recorded s' = recorded s" "workers s' = workers s"
  shows "inv_cover s'"
  using assms by (simp add: inv_cover_def)

lemma inv_cover_step:
  assumes "inv_cover s" "step e s = Some s'"
  shows "inv_cover s'"
  using assms(2)
proof (cases rule: step_cases)
  case (tick d)
  with assms(1) show ?thesis by (simp add: inv_cover_def)
next
  case main
  from main(2) show ?thesis
  proof (cases rule: main_step_cases)
    case (spawn i)
    show ?thesis unfolding inv_cover_def
    proof
      fix j assume "j \<in> set (started s')"
      with spawn have "j \<in> set (started s)" by simp
      with assms(1) consider "j \<in> fst ` set (recorded s)"
        | v tk where "v < length (workers s)" "held (workers s ! v) = Some (j, tk)"
        unfolding inv_cover_def by blast
      then show "j \<in> fst ` set (recorded s') \<or>
          (\<exists>v tk. v < length (workers s') \<and> held (workers s' ! v) = Some (j, tk))"
      proof cases
        case 1
        with spawn show ?thesis by simp
      next
        case 2
        with spawn have "v < length (workers s') \<and> held (workers s' ! v) = Some (j, tk)"
          by (simp add: nth_append)
        then show ?thesis by blast
      qed
    qed
  next
    case (wait i)
    with assms(1) show ?thesis by (simp add: inv_cover_def)
  next
    case return
    with assms(1) show ?thesis by (simp add: inv_cover_def)
  qed
next
  case (worker w ch)
  from worker(2) show ?thesis
  proof (cases rule: worker_step_cases)
    case drained
    have "inv_cover (s\<lparr>workers := (workers s)[w := WExited]\<rparr>)"
      using assms(1) drained(1,2) by (intro inv_cover_update) simp_all
    then show ?thesis using drained(4)
      by (elim inv_cover_cong) (simp_all add: worker_exit_def)
  next
    case (abandon i tk q)
    have "inv_cover (s\<lparr>workers := (workers s)[w := WExited]\<rparr>)"
      using assms(1) abandon(1,2) by (intro inv_cover_update) simp_all
    then show ?thesis using abandon(5)
      by (elim inv_cover_cong) (simp_all add: worker_exit_def)
  next
    case (launch i tk q err fin)
    show ?thesis unfolding inv_cover_def
    proof
      fix j assume "j \<in> set (started s')"
      with launch(6) have "j \<in> set (started s) \<or> j = i" by auto
      then show "j \<in> fst ` set (recorded s') \<or>
          (\<exists>v tk. v < length (workers s') \<and> held (workers s' ! v) = Some (j, tk))"
      proof
        assume "j = i"
        with launch(1,6) have "w < length (workers s') \<and> held (workers s' ! w) = Some (j, tk)"
          by simp
        then show ?thesis by blast
      next
        assume "j \<in> set (started s)"
        with assms(1) consider "j \<in> fst ` set (recorded s)"
          | v tk' where "v < length (workers s)" "held (workers s ! v) = Some (j, tk')"
          unfolding inv_cover_def by blast
        then show ?thesis
        proof cases
          case 1
          with launch(6) show ?thesis by simp
        next
          case 2
          with launch(2) have "v \<noteq> w" by auto
          with 2 launch(6) have "v < length (workers s') \<and> held (workers s' ! v) = Some (j, tk')"
            by simp
          then show ?thesis by blast
        qed
      qed
    qed
  next
    case (finish i tk err fin)
    have "inv_cover (s\<lparr>workers := (workers s)[w := WRecord i tk err]\<rparr>)"
      using assms(1) finish(1,2) by (intro inv_cover_update) simp_all
    with finish(4) show ?thesis by simp
  next
    case (store i tk err)
    show ?thesis unfolding inv_cover_def
    proof
      fix j assume "j \<in> set (started s')"
      with store(3) have "j \<in> set (started s)" by simp
      with assms(1) consider "j \<in> fst ` set (recorded s)"
        | v tk' where "v < length (workers s)" "held (workers s ! v) = Some (j, tk')"
        unfolding inv_cover_def by blast
      then show "j \<in> fst ` set (recorded s') \<or>
          (\<exists>v tk. v < length (workers s') \<and> held (workers s' ! v) = Some (j, tk))"
      proof cases
        case 1
        with store(3) show ?thesis by simp
      next
        case 2
        show ?thesis
        proof (cases "v = w")
          case True
          with 2 store(2) have "j = i" by simp
          with store(3) show ?thesis by simp
        next
          case False
          with 2 store(3) have "v < length (workers s') \<and> held (workers s' ! v) = Some (j, tk')"
            by simp
          then show ?thesis by blast
        qed
      qed
    qed
  qed
qed


subsection \<open>inv_sync\<close>

lemma replay_snoc: "replay (rs @ [(i, k, e)]) m = (replay rs m)(k \<mapsto> e)"
  by (induction rs arbitrary: m) auto

lemma length_filter_update:
  "w < length ws \<Longrightarrow>
   length (filter P (ws[w := x])) + (if P (ws ! w) then 1 else 0) =
   length (filter P ws) + (if P x then 1 else 0)"
proof (induction ws arbitrary: w)
  case Nil
  then show ?case by simp
next
  case (Cons a ws)
  show ?case
  proof (cases w)
    case 0
    then show ?thesis by simp
  next
    case (Suc v)
    with Cons.prems have "v < length ws" by simp
    from Cons.IH[OF this] Suc show ?thesis by simp
  qed
qed

lemma live_exit:
  assumes "w < length ws" "live (ws ! w)"
  shows "int (length (filter live (ws[w := WExited]))) = int (length (filter live ws)) - 1"
  using length_filter_update[OF assms(1), of live WExited] assms(2) by simp

lemma live_keep:
  assumes "w < length ws" "live (ws ! w)" "live p"
  shows "length (filter live (ws[w := p])) = length (filter live ws)"
  using length_filter_update[OF assms(1), of live p] assms(2,3) by simp

lemma inv_sync_init: "inv_sync S (Run_init S t0)"
  by (simp add: inv_sync_def Run_init_def)

lemma inv_sync_step:
  assumes "inv_sync S s" "inv_static S t0 s" "step e s = Some s'"
  shows "inv_sync S s'"
  using assms(3)
proof (cases rule: step_cases)
  case (tick d)
  with assms(1) show ?thesis by (simp add: inv_sync_def)
next
  case main
  from assms(2) have wc: "workerCount (sched s) = workerCount S"
    by (simp add: inv_static_def)
  from main(2) show ?thesis
  proof (cases rule: main_step_cases)
    case (spawn i)
    with assms(1) wc show ?thesis by (auto simp: inv_sync_def)
  next
    case (wait i)
    with assms(1) wc show ?thesis by (auto simp: inv_sync_def)
  next
    case return
    from assms(1) have "wg (sched s) = wg S + int (length (filter live (workers s)))"
      by (simp add: inv_sync_def)
    with return(2) have "wg S = 0 \<longrightarrow> length (filter live (workers s)) = 0"
      by auto
    then have "wg S = 0 \<longrightarrow> (\<forall>p \<in> set (workers s). \<not> live p)"
      by (simp add: filter_empty_conv)
    with assms(1) return show ?thesis by (simp add: inv_sync_def)
  qed
next
  case (worker w ch)
  have notret: "main s \<noteq> MReturned \<or> wg S \<noteq> 0" if "w < length (workers s)" "live (workers s ! w)"
  proof (rule ccontr)
    assume "\<not> (main s \<noteq> MReturned \<or> wg S \<noteq> 0)"
    with assms(1) have "\<forall>p \<in> set (workers s). \<not> live p" by (simp add: inv_sync_def)
    with that show False by (meson nth_mem)
  qed
  from worker(2) show ?thesis
  proof (cases rule: worker_step_cases)
    case drained
    from drained(1,2) have l: "live (workers s ! w)" by simp
    from live_exit[OF drained(1) l] notret[OF drained(1) l] assms(1) drained(4) show ?thesis
      by (auto simp: inv_sync_def worker_exit_def)
  next
    case (abandon i tk q)
    from abandon(1,2) have l: "live (workers s ! w)" by simp
    from live_exit[OF abandon(1) l] notret[OF abandon(1) l] assms(1) abandon(5) show ?thesis
      by (auto simp: inv_sync_def worker_exit_def)
  next
    case (launch i tk q err fin)
    from launch(1,2) have l: "live (workers s ! w)" by simp
    from live_keep[OF launch(1) l, of "WExec i tk err fin"] notret[OF launch(1) l] assms(1) launch(6)
    show ?thesis
      by (auto simp: inv_sync_def)
  next
    case (finish i tk err fin)
    from finish(1,2) have l: "live (workers s ! w)" by simp
    from live_keep[OF finish(1) l, of "WRecord i tk err"] notret[OF finish(1) l] assms(1) finish(4)
    show ?thesis
      by (auto simp: inv_sync_def)
  next
    case (store i tk err)
    from store(1,2) have l: "live (workers s ! w)" by simp
    from live_keep[OF store(1) l, of WIdle] notret[OF store(1) l] assms(1) store(3)
    show ?thesis
      by (auto simp: inv_sync_def replay_snoc)
  qed
qed

subsection \<open>All invariants on every reachable state\<close>

lemma inv_all_init: "inv_all S t0 (Run_init S t0)"
  by (simp add: inv_all_def inv_static_init inv_queue_init inv_held_init inv_cover_init
      inv_sync_init)

lemma inv_all_step:
  assumes "inv_all S t0 s" "step e s = Some s'"
  shows "inv_all S t0 s'"
proof -
  from assms(1) have a: "inv_static S t0 s" "inv_queue S s" "inv_held S s" "inv_cover s"
    "inv_sync S s" by (simp_all add: inv_all_def)
  show ?thesis unfolding inv_all_def
    using inv_static_step[OF a(1) assms(2)] inv_queue_step[OF a(2) assms(2)]
      inv_held_step[OF a(3) a(2) assms(2)] inv_cover_step[OF a(4) assms(2)]
      inv_sync_step[OF a(5) a(1) assms(2)]
    by simp
qed

lemma inv_all_exec: "inv_all S t0 s \<Longrightarrow> exec evs s = Some s' \<Longrightarrow> inv_all S t0 s'"
  using exec_invariant[where P = "inv_all S t0"] inv_all_step by blast

lemma reach_inv: "exec evs (Run_init S t0) = Some s \<Longrightarrow> inv_all S t0 s"
  using inv_all_exec[OF inv_all_init] .

subsection \<open>Consequences used below\<close>

lemma inv_allD:
  assumes "inv_all S t0 s"
  shows "inv_static S t0 s" "inv_queue S s" "inv_held S s" "inv_cover s" "inv_sync S s"
  using assms by (simp_all add: inv_all_def)

lemma built_scheduler:
  "tasks (foldl AddTask (NewTaskScheduler wc tmo) tks) = tks \<and>
   wg (foldl AddTask (NewTaskScheduler wc tmo) tks) = 0 \<and>
   results (foldl AddTask (NewTaskScheduler wc tmo) tks) = Map.empty \<and>
   timeout (foldl AddTask (NewTaskScheduler wc tmo) tks) = tmo \<and>
   workerCount (foldl AddTask (NewTaskScheduler wc tmo) tks) = wc"
proof -
  have "tasks (foldl AddTask S tks) = tasks S @ tks \<and> wg (foldl AddTask S tks) = wg S \<and>
        results (foldl AddTask S tks) = results S \<and> timeout (foldl AddTask S tks) = timeout S \<and>
        workerCount (foldl AddTask S tks) = workerCount S" for S
    by (induction tks arbitrary: S) (simp_all add: AddTask_def)
  from this[of "NewTaskScheduler wc tmo"] show ?thesis by (simp add: NewTaskScheduler_def)
qed





subsection \<open>The concrete runs\<close>

lemmas eval_defs = Run_init_def NewTaskScheduler_def AddTask_def main_step_def worker_step_def
  worker_exit_def SimpleTask_Execute_def LongRunningTask_Execute_def WithTimeout_def Background_def
  Done_def Err_def goroutine_send_def duration_def Millisecond_def Second_def NewSimpleTask_def
  NewLongRunningTask_def Let_def c0_def steps.simps

lemma main_run: "exec main_schedule (Run_init main_scheduler 0) = Some main_final"
  by (simp add: main_schedule_def main_scheduler_def main_final_def eval_defs)


lemma late_run: "exec [MainStep, Tick 4000000000] (Run_init main_scheduler 0) = Some late_state"
  by (simp add: main_scheduler_def late_state_def eval_defs)

subsection \<open>After the deadline\<close>

lemma after_deadline_step:
  assumes "Done (ctx s) (now s)" "step e s = Some s'"
  shows "Done (ctx s') (now s') \<and> started s' = started s"
  using assms(2)
proof (cases rule: step_cases)
  case (tick d)
  with assms(1) show ?thesis by (auto simp: Done_def split: option.splits)
next
  case main
  from main(2) assms(1) show ?thesis
    by (cases rule: main_step_cases) auto
next
  case (worker w ch)
  from worker(2) assms(1) show ?thesis
    by (cases rule: worker_step_cases) (auto simp: worker_exit_def)
qed

lemma after_deadline_exec:
  assumes "Done (ctx s) (now s)" "exec evs s = Some s'"
  shows "Done (ctx s') (now s') \<and> started s' = started s"
proof -
  have "Done (ctx s') (now s') \<and> started s' = started s"
  proof (rule exec_invariant[where P = "\<lambda>x. Done (ctx x) (now x) \<and> started x = started s", OF assms(2)])
    show "Done (ctx s) (now s) \<and> started s = started s" using assms(1) by simp
  next
    fix e a b assume "Done (ctx a) (now a) \<and> started a = started s" "step e a = Some b"
    then show "Done (ctx b) (now b) \<and> started b = started s"
      using after_deadline_step[of a e b] by simp
  qed
  then show ?thesis .
qed

lemma exited_step:
  assumes "w < length (workers s)" "workers s ! w = WExited" "step e s = Some s'"
  shows "w < length (workers s') \<and> workers s' ! w = WExited"
  using assms(3)
proof (cases rule: step_cases)
  case (tick d)
  with assms(1,2) show ?thesis by simp
next
  case main
  from main(2) assms(1,2) show ?thesis
    by (cases rule: main_step_cases) (auto simp: nth_append)
next
  case (worker v ch)
  from worker(2) assms(1,2) show ?thesis
    by (cases rule: worker_step_cases) (auto simp: worker_exit_def nth_list_update)
qed

lemma exited_exec:
  assumes "w < length (workers s)" "workers s ! w = WExited" "exec evs s = Some s'"
  shows "w < length (workers s') \<and> workers s' ! w = WExited"
proof (rule exec_invariant[where P = "\<lambda>x. w < length (workers x) \<and> workers x ! w = WExited", OF assms(3)])
  show "w < length (workers s) \<and> workers s ! w = WExited" using assms(1,2) by simp
next
  fix e a b assume "w < length (workers a) \<and> workers a ! w = WExited" "step e a = Some b"
  then show "w < length (workers b) \<and> workers b ! w = WExited"
    using exited_step[of w a e b] by simp
qed

lemma queue_positions:
  assumes "(j, x) \<in> set (drop k (enumerate 0 xs))"
  shows "k \<le> j"
proof -
  from assms have "j \<in> set (drop k [0..<length xs])"
    by (auto simp: enumerate_eq_zip drop_zip dest: set_zip_leftD)
  then show ?thesis by simp
qed

subsection \<open>No workers\<close>

lemma no_workers_step:
  assumes "workerCount (sched s) \<le> 0" "workers s = []" "main s \<noteq> MSpawn i \<or> i = 0"
    "\<forall>i. main s = MSpawn i \<longrightarrow> i = 0" "step e s = Some s'"
  shows "workerCount (sched s') = workerCount (sched s) \<and> workers s' = [] \<and>
         (\<forall>i. main s' = MSpawn i \<longrightarrow> i = 0) \<and>
         started s' = started s \<and> claimed s' = claimed s \<and> recorded s' = recorded s \<and>
         results (sched s') = results (sched s) \<and> taskChan s' = taskChan s"
  using assms(5)
proof (cases rule: step_cases)
  case (tick d)
  with assms(1-4) show ?thesis by simp
next
  case main
  from main(2) assms(1-4) show ?thesis
    by (cases rule: main_step_cases) auto
next
  case (worker w ch)
  from worker(2) assms(2) show ?thesis
    by (cases rule: worker_step_cases) auto
qed

lemma no_workers_exec:
  assumes "workerCount S \<le> 0" "exec evs (Run_init S t0) = Some s"
  shows "workers s = [] \<and> started s = [] \<and> claimed s = [] \<and> recorded s = [] \<and>
         results (sched s) = results S \<and> taskChan s = enumerate 0 (tasks S)"
proof -
  let ?P = "\<lambda>x. workerCount (sched x) \<le> 0 \<and> workers x = [] \<and> (\<forall>i. main x = MSpawn i \<longrightarrow> i = 0) \<and>
     started x = [] \<and> claimed x = [] \<and> recorded x = [] \<and> results (sched x) = results S \<and>
     taskChan x = enumerate 0 (tasks S)"
  have "?P s"
  proof (rule exec_invariant[where P = ?P, OF assms(2)])
    show "?P (Run_init S t0)" using assms(1) by (simp add: Run_init_def)
  next
    fix e a b assume a: "?P a" and st: "step e a = Some b"
    from a have "workerCount (sched a) \<le> 0" "workers a = []" "main a \<noteq> MSpawn 0 \<or> (0::int) = 0"
      "\<forall>i. main a = MSpawn i \<longrightarrow> i = 0" by simp_all
    from no_workers_step[OF this st] a show "?P b" by simp
  qed
  then show ?thesis by simp
qed

lemma no_workers_Run:
  assumes "workerCount S \<le> 0" "wg S = 0"
  shows "Run S t0 [MainStep, MainStep] = Some (results S, S, t0)"
  using assms by (simp add: Run_def Run_init_def main_step_def)

subsection \<open>What a run leaves behind\<close>


subsection \<open>A run can always be brought to its return\<close>

text \<open>
  No reachable state is a deadlock: some goroutine can take a step (a worker inside
  \<^verbatim>\<open>Execute\<close> once the clock has reached the instant of its return) that lowers
  \<open>remaining\<close>, so every schedule of a scheduler whose wait-group counter starts at zero
  can be continued to one under which \<^verbatim>\<open>Run\<close> returns.
\<close>

lemma rank_update:
  "w < length ws \<Longrightarrow>
   sum_list (map rank (ws[w := p])) + rank (ws ! w) = sum_list (map rank ws) + rank p"
proof (induction ws arbitrary: w)
  case Nil
  then show ?case by simp
next
  case (Cons a ws)
  show ?case
  proof (cases w)
    case 0
    then show ?thesis by simp
  next
    case (Suc v)
    with Cons.prems have "v < length ws" by simp
    from Cons.IH[OF this] Suc show ?thesis by simp
  qed
qed

lemma live_worker:
  assumes "\<not> (\<forall>p \<in> set ws. \<not> live p)"
  obtains w where "w < length ws" "ws ! w \<noteq> WExited"
proof -
  from assms obtain p where "p \<in> set ws" "live p" by blast
  then obtain w where "w < length ws" "ws ! w = p" by (auto simp: in_set_conv_nth)
  with \<open>live p\<close> have "w < length ws" "ws ! w \<noteq> WExited" by auto
  then show ?thesis by (rule that)
qed

lemma progress:
  assumes inv: "inv_sync S s" and wg0: "wg S = 0" and nr: "main s \<noteq> MReturned"
  shows "\<exists>evs s'. exec evs s = Some s' \<and> remaining s' < remaining s"
proof (cases "main s")
  case (MSpawn i)
  show ?thesis
  proof (cases "i < workerCount (sched s)")
    case True
    with MSpawn have "exec [MainStep] s =
        Some (s\<lparr>sched := (sched s)\<lparr>wg := wg (sched s) + 1\<rparr>,
               workers := workers s @ [WIdle], main := MSpawn (i + 1)\<rparr>)"
      by (simp add: main_step_def)
    moreover from True have "nat (workerCount (sched s) - i) = Suc (nat (workerCount (sched s) - (i + 1)))"
      by simp
    then have "remaining (s\<lparr>sched := (sched s)\<lparr>wg := wg (sched s) + 1\<rparr>,
               workers := workers s @ [WIdle], main := MSpawn (i + 1)\<rparr>) < remaining s"
      using MSpawn by (simp add: remaining_def)
    ultimately show ?thesis by blast
  next
    case False
    with MSpawn have "exec [MainStep] s = Some (s\<lparr>main := MWait\<rparr>)"
      by (simp add: main_step_def)
    moreover have "remaining (s\<lparr>main := MWait\<rparr>) < remaining s"
      using MSpawn by (simp add: remaining_def)
    ultimately show ?thesis by blast
  qed
next
  case MWait
  show ?thesis
  proof (cases "\<forall>p \<in> set (workers s). \<not> live p")
    case True
    then have "filter live (workers s) = []" by (simp add: filter_empty_conv)
    with inv wg0 have "wg (sched s) = 0" by (simp add: inv_sync_def)
    with MWait have "exec [MainStep] s = Some (s\<lparr>main := MReturned\<rparr>)"
      by (simp add: main_step_def)
    moreover have "remaining (s\<lparr>main := MReturned\<rparr>) < remaining s"
      using MWait by (simp add: remaining_def)
    ultimately show ?thesis by blast
  next
    case False
    then obtain w where w: "w < length (workers s)" "workers s ! w \<noteq> WExited"
      by (rule live_worker)
    show ?thesis
    proof (cases "workers s ! w")
      case WIdle
      show ?thesis
      proof (cases "taskChan s")
        case Nil
        with w WIdle have "exec [WorkerStep w ch] s = Some (worker_exit w s)" for ch
          by (simp add: worker_step_def)
        moreover have "remaining (worker_exit w s) < remaining s"
          using rank_update[OF w(1), of WExited] WIdle
          by (simp add: remaining_def worker_exit_def)
        ultimately show ?thesis by blast
      next
        case (Cons a q)
        obtain i tk where a: "a = (i, tk)" by (cases a)
        show ?thesis
        proof (cases "Done (ctx s) (now s)")
          case True
          with w WIdle Cons a have "exec [WorkerStep w ch] s =
              Some (worker_exit w (s\<lparr>taskChan := q, claimed := claimed s @ [(w, i, now s)]\<rparr>))" for ch
            by (simp add: worker_step_def)
          moreover have "remaining (worker_exit w (s\<lparr>taskChan := q, claimed := claimed s @ [(w, i, now s)]\<rparr>))
              < remaining s"
            using rank_update[OF w(1), of WExited] WIdle Cons
            by (simp add: remaining_def worker_exit_def)
          ultimately show ?thesis by blast
        next
          case False
          obtain err fin where ex: "Execute tk (ctx s) (now s) \<lparr>rnd = 0, pick_done = False\<rparr> = (err, fin)"
            by (cases "Execute tk (ctx s) (now s) \<lparr>rnd = 0, pick_done = False\<rparr>")
          with w WIdle Cons a False have "exec [WorkerStep w \<lparr>rnd = 0, pick_done = False\<rparr>] s =
              Some (s\<lparr>taskChan := q, workers := (workers s)[w := WExec i tk err fin],
                      claimed := claimed s @ [(w, i, now s)], started := started s @ [i]\<rparr>)"
            by (simp add: worker_step_def)
          moreover have "remaining (s\<lparr>taskChan := q, workers := (workers s)[w := WExec i tk err fin],
                      claimed := claimed s @ [(w, i, now s)], started := started s @ [i]\<rparr>) < remaining s"
            using rank_update[OF w(1), of "WExec i tk err fin"] WIdle Cons
            by (simp add: remaining_def)
          ultimately show ?thesis by blast
        qed
      qed
    next
      case (WExec i tk err fin)
      have "fin \<le> now s + int (nat (fin - now s))" by simp
      with w WExec have "exec [Tick (nat (fin - now s)), WorkerStep w ch] s =
          Some (s\<lparr>now := now s + int (nat (fin - now s)),
                  workers := (workers s)[w := WRecord i tk err]\<rparr>)" for ch
        by (simp add: worker_step_def)
      moreover have "remaining (s\<lparr>now := now s + int (nat (fin - now s)),
                  workers := (workers s)[w := WRecord i tk err]\<rparr>) < remaining s"
        using rank_update[OF w(1), of "WRecord i tk err"] WExec
        by (simp add: remaining_def)
      ultimately show ?thesis by blast
    next
      case (WRecord i tk err)
      with w have "exec [WorkerStep w ch] s =
          Some (s\<lparr>sched := (sched s)\<lparr>results := (results (sched s))(GetID tk \<mapsto> err)\<rparr>,
                  workers := (workers s)[w := WIdle],
                  recorded := recorded s @ [(i, GetID tk, err)]\<rparr>)" for ch
        by (simp add: worker_step_def)
      moreover have "remaining (s\<lparr>sched := (sched s)\<lparr>results := (results (sched s))(GetID tk \<mapsto> err)\<rparr>,
                  workers := (workers s)[w := WIdle],
                  recorded := recorded s @ [(i, GetID tk, err)]\<rparr>) < remaining s"
        using rank_update[OF w(1), of WIdle] WRecord
        by (simp add: remaining_def)
      ultimately show ?thesis by blast
    next
      case WExited
      with w(2) show ?thesis by simp
    qed
  qed
next
  case MReturned
  with nr show ?thesis by simp
qed

lemma can_return:
  assumes "inv_all S t0 s" "wg S = 0"
  shows "\<exists>evs s'. exec evs s = Some s' \<and> main s' = MReturned"
  using assms(1)
proof (induction "remaining s" arbitrary: s rule: less_induct)
  case less
  show ?case
  proof (cases "main s = MReturned")
    case True
    then have "exec [] s = Some s \<and> main s = MReturned" by simp
    then show ?thesis by blast
  next
    case False
    from less.prems have "inv_sync S s" by (simp add: inv_all_def)
    from progress[OF this assms(2) False] obtain evs1 s1
      where 1: "exec evs1 s = Some s1" "remaining s1 < remaining s" by blast
    from inv_all_exec[OF less.prems 1(1)] have "inv_all S t0 s1" .
    from less.hyps[OF 1(2) this] obtain evs2 s2
      where 2: "exec evs2 s1 = Some s2" "main s2 = MReturned" by blast
    from 1(1) 2(1) have "exec (evs1 @ evs2) s = Some s2" by (simp add: exec_append)
    with 2(2) show ?thesis by blast
  qed
qed

lemma Run_can_return:
  assumes "wg S = 0" "exec evs (Run_init S t0) = Some s"
  shows "\<exists>evs' res S' t1. Run S t0 (evs @ evs') = Some (res, S', t1)"
proof -
  from can_return[OF reach_inv[OF assms(2)] assms(1)] obtain evs' s'
    where e: "exec evs' s = Some s'" "main s' = MReturned" by blast
  with assms(2) have "exec (evs @ evs') (Run_init S t0) = Some s'" by (simp add: exec_append)
  with e(2) have "Run S t0 (evs @ evs') = Some (results (sched s'), sched s', now s')"
    by (simp add: Run_def)
  then show ?thesis by blast
qed

section \<open>The tasks\<close>

lemma steps_cancel:
  "i < Count t \<Longrightarrow> d \<le> clk + (Count t - 1 - i) * (100 * Millisecond) \<Longrightarrow>
   \<exists>k. i \<le> k \<and> k < Count t \<and>
       steps t (Some d) i clk =
         (Some (ErrCancelled (LID t) k (Some DeadlineExceeded)), clk + (k - i) * (100 * Millisecond)) \<and>
       d \<le> clk + (k - i) * (100 * Millisecond) \<and>
       (i < k \<longrightarrow> clk + (k - i - 1) * (100 * Millisecond) < d)"
proof (induction t "Some d :: Context" i clk rule: steps.induct)
  case (1 t i clk)
  show ?case
  proof (cases "d \<le> clk")
    case True
    with 1(2) have "steps t (Some d) i clk = (Some (ErrCancelled (LID t) i (Some DeadlineExceeded)), clk)"
      by (simp add: steps.simps Done_def Err_def)
    with True 1(2) show ?thesis by (intro exI[of _ i]) simp
  next
    case False
    then have nd: "\<not> Done (Some d) clk" by (simp add: Done_def)
    have lt: "i + 1 < Count t"
    proof (rule ccontr)
      assume "\<not> i + 1 < Count t"
      with 1(2) have "Count t - 1 - i = 0" by simp
      with 1(3) False show False by simp
    qed
    have d': "d \<le> clk + 100 * Millisecond + (Count t - 1 - (i + 1)) * (100 * Millisecond)"
      using 1(3) by (simp add: algebra_simps)
    from 1(1)[OF 1(2) nd lt d'] obtain k where k: "i + 1 \<le> k" "k < Count t"
      "steps t (Some d) (i + 1) (clk + 100 * Millisecond) =
         (Some (ErrCancelled (LID t) k (Some DeadlineExceeded)), clk + 100 * Millisecond + (k - (i + 1)) * (100 * Millisecond))"
      "d \<le> clk + 100 * Millisecond + (k - (i + 1)) * (100 * Millisecond)"
      "i + 1 < k \<longrightarrow> clk + 100 * Millisecond + (k - (i + 1) - 1) * (100 * Millisecond) < d"
      by blast
    have st: "steps t (Some d) i clk = steps t (Some d) (i + 1) (clk + 100 * Millisecond)"
      using 1(2) nd by (subst steps.simps) simp
    show ?thesis
    proof (intro exI[of _ k] conjI)
      show "i \<le> k" using k(1) by simp
      show "k < Count t" by (rule k(2))
      show "steps t (Some d) i clk =
         (Some (ErrCancelled (LID t) k (Some DeadlineExceeded)), clk + (k - i) * (100 * Millisecond))"
        using st k(3) by (simp add: algebra_simps)
      show "d \<le> clk + (k - i) * (100 * Millisecond)" using k(4) by (simp add: algebra_simps)
      show "i < k \<longrightarrow> clk + (k - i - 1) * (100 * Millisecond) < d"
      proof (cases "i + 1 < k")
        case True
        with k(5) show ?thesis by (simp add: algebra_simps)
      next
        case False
        with k(1) have "k = i + 1" by simp
        with \<open>\<not> d \<le> clk\<close> show ?thesis by simp
      qed
    qed
  qed
qed

lemma steps_complete:
  "Count t \<le> i \<or> clk + (Count t - 1 - i) * (100 * Millisecond) < d \<Longrightarrow>
   steps t (Some d) i clk = (None, clk + max 0 (Count t - i) * (100 * Millisecond))"
proof (induction t "Some d :: Context" i clk rule: steps.induct)
  case (1 t i clk)
  show ?case
  proof (cases "i < Count t")
    case False
    then show ?thesis by (subst steps.simps) (simp add: max_def)
  next
    case True
    with 1(2) have lt: "clk + (Count t - 1 - i) * (100 * Millisecond) < d" by simp
    have m: "0 < Millisecond" by (simp add: Millisecond_def)
    from True have "0 \<le> (Count t - 1 - i) * (100 * Millisecond)" using m by simp
    with lt have "clk < d" by linarith
    then have nd: "\<not> Done (Some d) clk" by (simp add: Done_def)
    have "Count t \<le> i + 1 \<or> clk + 100 * Millisecond + (Count t - 1 - (i + 1)) * (100 * Millisecond) < d"
      using lt by (simp add: algebra_simps)
    from 1(1)[OF True nd this]
    have "steps t (Some d) (i + 1) (clk + 100 * Millisecond) =
            (None, clk + 100 * Millisecond + max 0 (Count t - (i + 1)) * (100 * Millisecond))" .
    moreover have "steps t (Some d) i clk = steps t (Some d) (i + 1) (clk + 100 * Millisecond)"
      using True nd by (subst steps.simps) simp
    ultimately show ?thesis using True by (simp add: max_def algebra_simps)
  qed
qed



lemma WithTimeout_Some: "\<exists>d. WithTimeout c start tmo = Some d"
  by (simp add: WithTimeout_def split: option.splits)

lemma Millisecond_pos: "0 < Millisecond"
  by (simp add: Millisecond_def)

lemma duration_bounds: "300 * Millisecond \<le> duration ch" "duration ch < 400 * Millisecond"
  by (simp_all add: duration_def Millisecond_def)

lemma steps_cong:
  "LID l = LID l' \<Longrightarrow> Count l = Count l' \<Longrightarrow> steps l c i n = steps l' c i n"
proof (induction l c i n rule: steps.induct)
  case (1 t taskCtx i clk)
  show ?case
  proof (cases "i < Count t \<and> \<not> Done taskCtx clk")
    case True
    with 1 have "steps t taskCtx (i + 1) (clk + 100 * Millisecond) =
                 steps l' taskCtx (i + 1) (clk + 100 * Millisecond)" by simp
    with True 1(2,3) show ?thesis
      by (subst steps.simps, subst (2) steps.simps) simp
  next
    case False
    with 1(2,3) show ?thesis
      by (subst steps.simps, subst (2) steps.simps) auto
  qed
qed

lemma SimpleTask_Execute_kinds:
  "fst (SimpleTask_Execute t c start ch) = None \<or>
   fst (SimpleTask_Execute t c start ch) = Some (ErrTimeout (ID t) (Some DeadlineExceeded)) \<or>
   fst (SimpleTask_Execute t c start ch) = Some (ErrContext DeadlineExceeded)"
  by (cases c)
     (auto simp: SimpleTask_Execute_def WithTimeout_def Done_def Err_def goroutine_send_def
        Let_def min_def max_def)

lemma LongRunningTask_Execute_kinds:
  "fst (LongRunningTask_Execute l c start) = None \<or>
   (\<exists>k. 0 \<le> k \<and> k < Count l \<and>
        fst (LongRunningTask_Execute l c start) =
          Some (ErrCancelled (LID l) k (Some DeadlineExceeded)))"
proof -
  obtain d where d: "WithTimeout c start (LTimeout l) = Some d"
    using WithTimeout_Some by blast
  show ?thesis
  proof (cases "0 < Count l \<and> d \<le> start + (Count l - 1) * (100 * Millisecond)")
    case True
    then have "0 < Count l" "d \<le> start + (Count l - 1 - 0) * (100 * Millisecond)" by simp_all
    from steps_cancel[OF this] obtain k where "0 \<le> k" "k < Count l"
      "steps l (Some d) 0 start =
         (Some (ErrCancelled (LID l) k (Some DeadlineExceeded)), start + (k - 0) * (100 * Millisecond))"
      by blast
    with d have "0 \<le> k \<and> k < Count l \<and> fst (LongRunningTask_Execute l c start) =
          Some (ErrCancelled (LID l) k (Some DeadlineExceeded))"
      by (simp add: LongRunningTask_Execute_def)
    then show ?thesis by blast
  next
    case False
    then have "Count l \<le> 0 \<or> start + (Count l - 1 - 0) * (100 * Millisecond) < d" by auto
    from steps_complete[OF this] d show ?thesis
      by (simp add: LongRunningTask_Execute_def)
  qed
qed

subsection \<open>Bounded-operation tasks\<close>

text \<open>
  C2, as amended. A bounded-operation task whose own deadline (\<open>Timeout\<close>) is shorter than
  its simulated work duration always returns a timeout Outcome. When its own deadline is
  longer than the duration it returns success (nil) if the context it is given is not done
  by the end of the work, and a timeout Outcome if the deadline of that context (the global
  run budget) falls before the end of the work.
\<close>

theorem SimpleTask_Execute_deadlines:
  "(Timeout t < duration ch \<longrightarrow>
      fst (SimpleTask_Execute t c start ch) = Some (ErrTimeout (ID t) (Some DeadlineExceeded))) \<and>
   (duration ch < Timeout t \<and> \<not> Done c (start + duration ch) \<longrightarrow>
      SimpleTask_Execute t c start ch = (None, start + duration ch)) \<and>
   (\<forall>g. c = Some g \<and> g < start + duration ch \<longrightarrow>
      fst (SimpleTask_Execute t c start ch) = Some (ErrTimeout (ID t) (Some DeadlineExceeded)))"
  by (cases c)
     (auto simp: SimpleTask_Execute_def WithTimeout_def Done_def Err_def goroutine_send_def
        Let_def min_def max_def)

theorem SimpleTask_Execute_deadlines_witness:
  "Timeout (NewSimpleTask ''task-x'' (200 * Millisecond)) < duration \<lparr>rnd = 7, pick_done = False\<rparr> \<and>
   fst (SimpleTask_Execute (NewSimpleTask ''task-x'' (200 * Millisecond)) (Some (4 * Second)) 0
          \<lparr>rnd = 7, pick_done = False\<rparr>)
     = Some (ErrTimeout ''task-x'' (Some DeadlineExceeded)) \<and>
   duration \<lparr>rnd = 7, pick_done = False\<rparr> < Timeout (NewSimpleTask ''task-1'' (2 * Second)) \<and>
   \<not> Done (Some (4 * Second)) (0 + duration \<lparr>rnd = 7, pick_done = False\<rparr>) \<and>
   SimpleTask_Execute (NewSimpleTask ''task-1'' (2 * Second)) (Some (4 * Second)) 0
          \<lparr>rnd = 7, pick_done = False\<rparr> = (None, 307 * Millisecond) \<and>
   (200 * Millisecond < 0 + duration \<lparr>rnd = 7, pick_done = False\<rparr>) \<and>
   fst (SimpleTask_Execute (NewSimpleTask ''task-1'' (2 * Second)) (Some (200 * Millisecond)) 0
          \<lparr>rnd = 7, pick_done = False\<rparr>)
     = Some (ErrTimeout ''task-1'' (Some DeadlineExceeded))"
  using SimpleTask_Execute_deadlines[of "NewSimpleTask ''task-x'' (200 * Millisecond)"
      "\<lparr>rnd = 7, pick_done = False\<rparr>" "Some (4 * Second)" 0]
    SimpleTask_Execute_deadlines[of "NewSimpleTask ''task-1'' (2 * Second)"
      "\<lparr>rnd = 7, pick_done = False\<rparr>" "Some (4 * Second)" 0]
    SimpleTask_Execute_deadlines[of "NewSimpleTask ''task-1'' (2 * Second)"
      "\<lparr>rnd = 7, pick_done = False\<rparr>" "Some (200 * Millisecond)" 0]
  by (simp add: NewSimpleTask_def duration_def Millisecond_def Second_def Done_def)

text \<open>
  C2 as stated fails: the own deadline (2 s) is longer than the work (300 ms), the global
  deadline falls 200 ms after the start, and \<^verbatim>\<open>Execute\<close> returns the timeout error.
\<close>

theorem SimpleTask_Execute_longer_deadline_counterexample:
  "duration \<lparr>rnd = 0, pick_done = False\<rparr> < Timeout (NewSimpleTask ''task-1'' (2 * Second)) \<and>
   fst (SimpleTask_Execute (NewSimpleTask ''task-1'' (2 * Second)) (Some (200 * Millisecond)) 0
          \<lparr>rnd = 0, pick_done = False\<rparr>)
     = Some (ErrTimeout ''task-1'' (Some DeadlineExceeded))"
  by (simp add: SimpleTask_Execute_def NewSimpleTask_def duration_def Millisecond_def Second_def
      WithTimeout_def Err_def Done_def)

subsection \<open>Multi-step tasks\<close>




subsection \<open>Outcome kinds\<close>

text \<open>
  C4, as amended. The kind of a non-nil Outcome is fixed by the variant of the task, not by
  which budget expired. A bounded-operation task returns nil, its timeout error or the bare
  context error; a multi-step task returns nil or its cancellation error, with a step
  count below \<open>Count\<close>. Every error carries the same context error,
  \<^verbatim>\<open>context.DeadlineExceeded\<close>, and there is no Outcome for a failure unrelated to
  timing. Two executions of tasks with the same identifier (and step count) whose contexts
  have the same deadline, the earlier of the global and the own one, return the same
  Outcome at the same instant, whichever of the two budgets supplied that deadline.
\<close>

theorem Execute_kind_by_variant:
  "(fst (Execute (Simple t) c start ch) = None \<or>
    fst (Execute (Simple t) c start ch) = Some (ErrTimeout (ID t) (Some DeadlineExceeded)) \<or>
    fst (Execute (Simple t) c start ch) = Some (ErrContext DeadlineExceeded)) \<and>
   (fst (Execute (LongRunning l) c start ch) = None \<or>
    (\<exists>k. 0 \<le> k \<and> k < Count l \<and>
         fst (Execute (LongRunning l) c start ch) =
           Some (ErrCancelled (LID l) k (Some DeadlineExceeded)))) \<and>
   (WithTimeout c start (Timeout t) = WithTimeout c' start (Timeout t') \<and> ID t = ID t' \<longrightarrow>
      Execute (Simple t) c start ch = Execute (Simple t') c' start ch) \<and>
   (WithTimeout c start (LTimeout l) = WithTimeout c' start (LTimeout l') \<and>
    LID l = LID l' \<and> Count l = Count l' \<longrightarrow>
      Execute (LongRunning l) c start ch = Execute (LongRunning l') c' start ch)"
proof (intro conjI impI)
  show "fst (Execute (Simple t) c start ch) = None \<or>
    fst (Execute (Simple t) c start ch) = Some (ErrTimeout (ID t) (Some DeadlineExceeded)) \<or>
    fst (Execute (Simple t) c start ch) = Some (ErrContext DeadlineExceeded)"
    using SimpleTask_Execute_kinds[of t c start ch] by simp
  show "fst (Execute (LongRunning l) c start ch) = None \<or>
    (\<exists>k. 0 \<le> k \<and> k < Count l \<and>
         fst (Execute (LongRunning l) c start ch) =
           Some (ErrCancelled (LID l) k (Some DeadlineExceeded)))"
    using LongRunningTask_Execute_kinds[of l c start] by simp
next
  assume "WithTimeout c start (Timeout t) = WithTimeout c' start (Timeout t') \<and> ID t = ID t'"
  then show "Execute (Simple t) c start ch = Execute (Simple t') c' start ch"
    by (simp add: SimpleTask_Execute_def Let_def split: option.splits)
next
  assume a: "WithTimeout c start (LTimeout l) = WithTimeout c' start (LTimeout l') \<and>
    LID l = LID l' \<and> Count l = Count l'"
  then have "steps l (WithTimeout c' start (LTimeout l')) 0 start =
             steps l' (WithTimeout c' start (LTimeout l')) 0 start"
    by (intro steps_cong) simp_all
  with a show "Execute (LongRunning l) c start ch = Execute (LongRunning l') c' start ch"
    by (simp add: LongRunningTask_Execute_def)
qed

theorem Execute_kind_by_variant_witness:
  "WithTimeout (Some (4 * Second)) 0 (LTimeout (NewLongRunningTask ''long-task-2'' 20 (1 * Second))) =
   WithTimeout (Some (1 * Second)) 0 (LTimeout (NewLongRunningTask ''long-task-2'' 20 (4 * Second))) \<and>
   Execute (LongRunning (NewLongRunningTask ''long-task-2'' 20 (1 * Second))) (Some (4 * Second)) 0 c0 =
   Execute (LongRunning (NewLongRunningTask ''long-task-2'' 20 (4 * Second))) (Some (1 * Second)) 0 c0 \<and>
   WithTimeout (Some (4 * Second)) 0 (Timeout (NewSimpleTask ''task-3'' (200 * Millisecond))) =
   WithTimeout (Some (200 * Millisecond)) 0 (Timeout (NewSimpleTask ''task-3'' (4 * Second))) \<and>
   Execute (Simple (NewSimpleTask ''task-3'' (200 * Millisecond))) (Some (4 * Second)) 0 c0 =
   Execute (Simple (NewSimpleTask ''task-3'' (4 * Second))) (Some (200 * Millisecond)) 0 c0"
proof -
  have a: "WithTimeout (Some (4 * Second)) 0 (LTimeout (NewLongRunningTask ''long-task-2'' 20 (1 * Second))) =
   WithTimeout (Some (1 * Second)) 0 (LTimeout (NewLongRunningTask ''long-task-2'' 20 (4 * Second)))"
    by (simp add: WithTimeout_def NewLongRunningTask_def Second_def Millisecond_def)
  have b: "WithTimeout (Some (4 * Second)) 0 (Timeout (NewSimpleTask ''task-3'' (200 * Millisecond))) =
   WithTimeout (Some (200 * Millisecond)) 0 (Timeout (NewSimpleTask ''task-3'' (4 * Second)))"
    by (simp add: WithTimeout_def NewSimpleTask_def Second_def Millisecond_def)
  have i: "LID (NewLongRunningTask ''long-task-2'' 20 (1 * Second)) =
           LID (NewLongRunningTask ''long-task-2'' 20 (4 * Second))"
    "Count (NewLongRunningTask ''long-task-2'' 20 (1 * Second)) =
     Count (NewLongRunningTask ''long-task-2'' 20 (4 * Second))"
    "ID (NewSimpleTask ''task-3'' (200 * Millisecond)) = ID (NewSimpleTask ''task-3'' (4 * Second))"
    by (simp_all add: NewLongRunningTask_def NewSimpleTask_def)
  from Execute_kind_by_variant[of "NewSimpleTask ''task-3'' (200 * Millisecond)" "Some (4 * Second)" 0 c0
      "NewLongRunningTask ''long-task-2'' 20 (1 * Second)" "Some (200 * Millisecond)"
      "NewSimpleTask ''task-3'' (4 * Second)" "NewLongRunningTask ''long-task-2'' 20 (4 * Second)"]
    b i
  have s: "Execute (Simple (NewSimpleTask ''task-3'' (200 * Millisecond))) (Some (4 * Second)) 0 c0 =
   Execute (Simple (NewSimpleTask ''task-3'' (4 * Second))) (Some (200 * Millisecond)) 0 c0"
    by blast
  from Execute_kind_by_variant[of "NewSimpleTask ''task-3'' (200 * Millisecond)" "Some (4 * Second)" 0 c0
      "NewLongRunningTask ''long-task-2'' 20 (1 * Second)" "Some (1 * Second)"
      "NewSimpleTask ''task-3'' (4 * Second)" "NewLongRunningTask ''long-task-2'' 20 (4 * Second)"]
    a i
  have l: "Execute (LongRunning (NewLongRunningTask ''long-task-2'' 20 (1 * Second))) (Some (4 * Second)) 0 c0 =
   Execute (LongRunning (NewLongRunningTask ''long-task-2'' 20 (4 * Second))) (Some (1 * Second)) 0 c0"
    by blast
  from a b s l show ?thesis by (intro conjI) assumption+
qed

text \<open>
  C4 as stated fails. A multi-step task whose own budget (1 s) expires under a global
  budget of 4 s, and the same task with an own budget of 4 s under a global budget that
  expires after 1 s, return the same cancellation error: which deadline fired cannot be
  read off the Outcome, and the expiry of the own budget did not yield a timeout error. A
  bounded-operation task stopped by the global budget returns its timeout error.
\<close>

theorem outcome_kind_counterexample:
  "LTimeout (NewLongRunningTask ''long-task-2'' 20 (1 * Second)) < 4 * Second \<and>
   Execute (LongRunning (NewLongRunningTask ''long-task-2'' 20 (1 * Second))) (Some (4 * Second)) 0 c0 =
     (Some (ErrCancelled ''long-task-2'' 10 (Some DeadlineExceeded)), 1 * Second) \<and>
   1 * Second < LTimeout (NewLongRunningTask ''long-task-2'' 20 (4 * Second)) \<and>
   Execute (LongRunning (NewLongRunningTask ''long-task-2'' 20 (4 * Second))) (Some (1 * Second)) 0 c0 =
     (Some (ErrCancelled ''long-task-2'' 10 (Some DeadlineExceeded)), 1 * Second) \<and>
   Execute (Simple (NewSimpleTask ''task-3'' (4 * Second))) (Some (200 * Millisecond)) 0 c0 =
     (Some (ErrTimeout ''task-3'' (Some DeadlineExceeded)), 200 * Millisecond)"
  by (simp add: LongRunningTask_Execute_def SimpleTask_Execute_def NewLongRunningTask_def
      NewSimpleTask_def steps.simps WithTimeout_def Done_def Err_def duration_def c0_def
      Millisecond_def Second_def)

section \<open>Runs of the scheduler\<close>



text \<open>
  C6. \<^verbatim>\<open>Run\<close> returns only after every worker it started has exited: when the main
  goroutine has returned, all \<open>workerCount\<close> workers exist and are gone, none of them holds
  a task, and every task on which \<^verbatim>\<open>Execute\<close> was called has its Outcome recorded. So
  \<^verbatim>\<open>Run\<close> does not return while a task is in flight, whatever the queue holds.
\<close>

theorem Run_returns_after_join:
  assumes "exec evs (Run_init S t0) = Some s" "wg S = 0" "main s = MReturned"
  shows "length (workers s) = nat (workerCount S) \<and>
         (\<forall>p \<in> set (workers s). p = WExited) \<and>
         (\<forall>w < length (workers s). held (workers s ! w) = None) \<and>
         set (started s) = rec_idx ` set (recorded s)"
proof -
  note inv = inv_allD[OF reach_inv[OF assms(1)]]
  from inv(5) assms(2,3) have len: "length (workers s) = nat (workerCount S)"
    and nl: "\<forall>p \<in> set (workers s). \<not> live p"
    by (simp_all add: inv_sync_def)
  have ex: "\<forall>p \<in> set (workers s). p = WExited"
  proof
    fix p assume "p \<in> set (workers s)"
    with nl have "\<not> live p" by blast
    then show "p = WExited" by (cases p) simp_all
  qed
  then have h: "\<forall>w < length (workers s). held (workers s ! w) = None"
    by (metis held.simps(4) nth_mem)
  have "set (started s) \<subseteq> rec_idx ` set (recorded s)"
  proof
    fix i assume "i \<in> set (started s)"
    with inv(4) h show "i \<in> rec_idx ` set (recorded s)"
      unfolding inv_cover_def rec_idx_def by fastforce
  qed
  moreover have "rec_idx ` set (recorded s) \<subseteq> set (started s)"
    using inv(3) unfolding inv_held_def rec_idx_def by auto
  ultimately show ?thesis using len ex h by blast
qed

theorem Run_returns_after_join_witness:
  "exec main_schedule (Run_init main_scheduler 0) = Some main_final \<and>
   wg main_scheduler = 0 \<and> main main_final = MReturned \<and>
   length (workers main_final) = nat (workerCount main_scheduler) \<and>
   workers main_final = [WExited, WExited, WExited] \<and>
   set (started main_final) = rec_idx ` set (recorded main_final)"
proof -
  have e: "workers main_final = [WExited, WExited, WExited]" by (simp add: main_final_def)
  have w: "wg main_scheduler = 0"
    by (simp add: main_scheduler_def NewTaskScheduler_def AddTask_def)
  have m: "main main_final = MReturned" by (simp add: main_final_def)
  from Run_returns_after_join[OF main_run w m] main_run w m e show ?thesis by simp
qed





text \<open>
  C10. A worker at the head of its loop that receives a task when the global deadline has
  fired exits: \<^verbatim>\<open>Execute\<close> is not called and nothing is recorded for the task, which
  has left the queue. From then on the worker stays gone, and no task that was in the queue
  at that moment (the received one included) is ever executed or recorded, whatever the
  other goroutines do.
\<close>

theorem late_dequeue_abandons:
  assumes reach: "exec evs (Run_init S t0) = Some s"
    and w: "w < length (workers s)" "workers s ! w = WIdle"
    and q: "taskChan s = (i, tk) # q"
    and late: "Done (ctx s) (now s)"
  shows "\<exists>s'. step (WorkerStep w ch) s = Some s' \<and>
           workers s' ! w = WExited \<and> taskChan s' = q \<and>
           claimed s' = claimed s @ [(w, i, now s)] \<and>
           started s' = started s \<and> recorded s' = recorded s \<and>
           results (sched s') = results (sched s) \<and>
           (\<forall>evs' s''. exec evs' s' = Some s'' \<longrightarrow>
              workers s'' ! w = WExited \<and>
              (\<forall>j \<in> fst ` set (taskChan s).
                 j \<notin> set (started s'') \<and> j \<notin> rec_idx ` set (recorded s'')))"
proof -
  define s' where "s' = worker_exit w (s\<lparr>taskChan := q, claimed := claimed s @ [(w, i, now s)]\<rparr>)"
  have st: "step (WorkerStep w ch) s = Some s'"
    using w q late by (simp add: worker_step_def s'_def)
  have now: "workers s' ! w = WExited" "w < length (workers s')" "taskChan s' = q"
    "claimed s' = claimed s @ [(w, i, now s)]" "started s' = started s"
    "recorded s' = recorded s" "results (sched s') = results (sched s)"
    "Done (ctx s') (now s')"
    using w late by (simp_all add: s'_def worker_exit_def)
  note inv = inv_allD[OF reach_inv[OF reach]]
  have fresh: "j \<notin> set (started s)" if "j \<in> fst ` set (taskChan s)" for j
  proof -
    from that obtain x where "(j, x) \<in> set (taskChan s)" by auto
    with inv(2) have "length (claimed s) \<le> j"
      using queue_positions by (simp add: inv_queue_def)
    moreover have "set (started s) \<subseteq> {0..<length (claimed s)}"
    proof -
      from inv(2) have st: "started s =
          map claim_idx (filter (\<lambda>c. \<not> Done (ctx s) (claim_time c)) (claimed s))"
        and m: "map claim_idx (claimed s) = [0..<length (claimed s)]"
        by (simp_all add: inv_queue_def)
      have "set (started s) \<subseteq> claim_idx ` set (claimed s)" unfolding st by auto
      also have "claim_idx ` set (claimed s) = set (map claim_idx (claimed s))" by simp
      also have "\<dots> = {0..<length (claimed s)}" by (simp only: m set_upt)
      finally show ?thesis .
    qed
    ultimately show ?thesis by auto
  qed
  have later: "workers s'' ! w = WExited \<and>
      (\<forall>j \<in> fst ` set (taskChan s). j \<notin> set (started s'') \<and> j \<notin> rec_idx ` set (recorded s''))"
    if e: "exec evs' s' = Some s''" for evs' s''
  proof -
    from exited_exec[OF now(2) now(1) e] have x: "workers s'' ! w = WExited" by simp
    from after_deadline_exec[OF now(8) e] now(5) have same: "started s'' = started s" by simp
    from reach st have "exec (evs @ WorkerStep w ch # evs') (Run_init S t0) = exec evs' s'"
      by (simp add: exec_append)
    with e have "exec (evs @ WorkerStep w ch # evs') (Run_init S t0) = Some s''" by simp
    from inv_allD(3)[OF reach_inv[OF this]]
    have "rec_idx ` set (recorded s'') \<subseteq> set (started s'')"
      by (auto simp: inv_held_def rec_idx_def)
    then have sub: "rec_idx ` set (recorded s'') \<subseteq> set (started s)" using same by simp
    show ?thesis
    proof (intro conjI ballI)
      show "workers s'' ! w = WExited" by (rule x)
    next
      fix j assume j: "j \<in> fst ` set (taskChan s)"
      from fresh[OF j] same show "j \<notin> set (started s'')" by simp
    next
      fix j assume j: "j \<in> fst ` set (taskChan s)"
      from fresh[OF j] sub show "j \<notin> rec_idx ` set (recorded s'')" by (rule contra_subsetD[rotated])
    qed
  qed
  then have all: "\<forall>evs' s''. exec evs' s' = Some s'' \<longrightarrow>
              workers s'' ! w = WExited \<and>
              (\<forall>j \<in> fst ` set (taskChan s).
                 j \<notin> set (started s'') \<and> j \<notin> rec_idx ` set (recorded s''))"
    by (intro allI impI)
  from st now(1) now(3) now(4) now(5) now(6) now(7) all
  have "step (WorkerStep w ch) s = Some s' \<and>
           workers s' ! w = WExited \<and> taskChan s' = q \<and>
           claimed s' = claimed s @ [(w, i, now s)] \<and>
           started s' = started s \<and> recorded s' = recorded s \<and>
           results (sched s') = results (sched s) \<and>
           (\<forall>evs' s''. exec evs' s' = Some s'' \<longrightarrow>
              workers s'' ! w = WExited \<and>
              (\<forall>j \<in> fst ` set (taskChan s).
                 j \<notin> set (started s'') \<and> j \<notin> rec_idx ` set (recorded s'')))"
    by (intro conjI) assumption+
  then show ?thesis by (rule exI)
qed

theorem late_dequeue_abandons_witness:
  "exec [MainStep, Tick 4000000000] (Run_init main_scheduler 0) = Some late_state \<and>
   0 < length (workers late_state) \<and> workers late_state ! 0 = WIdle \<and>
   taskChan late_state =
     (0, Simple (NewSimpleTask ''task-1'' (2 * Second))) # tl (taskChan late_state) \<and>
   Done (ctx late_state) (now late_state) \<and>
   (\<exists>s'. step (WorkerStep 0 c0) late_state = Some s' \<and> workers s' ! 0 = WExited \<and>
         taskChan s' = tl (taskChan late_state) \<and> started s' = [] \<and> recorded s' = [])"
proof -
  have a: "0 < length (workers late_state)" "workers late_state ! 0 = WIdle"
    by (simp_all add: late_state_def)
  have b: "taskChan late_state =
     (0, Simple (NewSimpleTask ''task-1'' (2 * Second))) # tl (taskChan late_state)"
    by (simp add: late_state_def main_scheduler_def AddTask_def NewTaskScheduler_def)
  have c: "Done (ctx late_state) (now late_state)"
    by (simp add: late_state_def Done_def Second_def Millisecond_def)
  have d: "started late_state = []" "recorded late_state = []"
    by (simp_all add: late_state_def)
  from late_dequeue_abandons[OF late_run a b c, of c0]
  obtain s' where s': "step (WorkerStep 0 c0) late_state = Some s'" "workers s' ! 0 = WExited"
    "taskChan s' = tl (taskChan late_state)" "started s' = started late_state"
    "recorded s' = recorded late_state"
    by (elim exE conjE)
  from s' d have "step (WorkerStep 0 c0) late_state = Some s' \<and> workers s' ! 0 = WExited \<and>
         taskChan s' = tl (taskChan late_state) \<and> started s' = [] \<and> recorded s' = []"
    by simp
  then have "\<exists>s'. step (WorkerStep 0 c0) late_state = Some s' \<and> workers s' ! 0 = WExited \<and>
         taskChan s' = tl (taskChan late_state) \<and> started s' = [] \<and> recorded s' = []"
    by (rule exI)
  with late_run a b c show ?thesis by (intro conjI) assumption+
qed

text \<open>
  C5, as amended. \<^verbatim>\<open>NewTaskScheduler\<close> stores the worker count it is given, whatever the
  integer: it neither fails nor clamps. With a worker count below one, \<^verbatim>\<open>Run\<close> on any
  batch starts no worker and can return at once, with an empty result set; under no
  schedule is a task received, executed or recorded.
\<close>

theorem NewTaskScheduler_keeps_workerCount:
  "workerCount (NewTaskScheduler wc tmo) = wc \<and>
   (wc \<le> 0 \<longrightarrow>
      Run (foldl AddTask (NewTaskScheduler wc tmo) tks) t0 [MainStep, MainStep] =
        Some (Map.empty, foldl AddTask (NewTaskScheduler wc tmo) tks, t0) \<and>
      (\<forall>evs s. exec evs (Run_init (foldl AddTask (NewTaskScheduler wc tmo) tks) t0) = Some s \<longrightarrow>
         workers s = [] \<and> started s = [] \<and> recorded s = [] \<and>
         results (sched s) = Map.empty))"
proof -
  let ?S = "foldl AddTask (NewTaskScheduler wc tmo) tks"
  from built_scheduler[of wc tmo tks]
  have b: "workerCount ?S = wc" "wg ?S = 0" "results ?S = Map.empty" by simp_all
  have 1: "workerCount (NewTaskScheduler wc tmo) = wc" by (simp add: NewTaskScheduler_def)
  have 2: "Run ?S t0 [MainStep, MainStep] = Some (Map.empty, ?S, t0)" if "wc \<le> 0"
    using no_workers_Run[of ?S t0] that b by simp
  have 3: "workers s = [] \<and> started s = [] \<and> recorded s = [] \<and> results (sched s) = Map.empty"
    if "wc \<le> 0" "exec evs (Run_init ?S t0) = Some s" for evs s
    using no_workers_exec[of ?S evs t0 s] that b by simp
  from 1 2 3 show ?thesis by blast
qed

theorem NewTaskScheduler_keeps_workerCount_witness:
  "workerCount (NewTaskScheduler (- 1) (4 * Second)) = - 1 \<and> (- 1 :: int) \<le> 0 \<and>
   Run (foldl AddTask (NewTaskScheduler (- 1) (4 * Second)) two_tasks) 0 [MainStep, MainStep] =
     Some (Map.empty, foldl AddTask (NewTaskScheduler (- 1) (4 * Second)) two_tasks, 0)"
  using NewTaskScheduler_keeps_workerCount[of "- 1" "4 * Second" two_tasks 0] by simp

text \<open>
  C5 as stated fails: a scheduler constructed with zero workers and given one task runs
  with zero workers and returns an empty result set.
\<close>

theorem zero_workers_counterexample:
  "workerCount (NewTaskScheduler 0 (4 * Second)) = 0 \<and>
   Run (AddTask (NewTaskScheduler 0 (4 * Second)) (Simple (NewSimpleTask ''task-1'' (2 * Second)))) 0
       [MainStep, MainStep] =
     Some (Map.empty,
           AddTask (NewTaskScheduler 0 (4 * Second)) (Simple (NewSimpleTask ''task-1'' (2 * Second))),
           0)"
  by (simp add: Run_def Run_init_def main_step_def NewTaskScheduler_def AddTask_def)




end
